theory Spec2Isabelle
  imports Main
begin

section \<open>The versioned metadata record (MetadataVersioned.ts)\<close>

subsection \<open>Version chain constants\<close>

definition KNOWN_VERSIONS :: "nat list" where
  "KNOWN_VERSIONS = [15, 14, 13, 12, 11, 10, 9]"

definition LATEST_VERSION :: nat where
  "LATEST_VERSION = KNOWN_VERSIONS ! 0"

definition TO_CALLS_VERSION :: nat where
  "TO_CALLS_VERSION = 14"

text \<open>
  The cache key type \<^verbatim>\<open>MetaVersions = Exclude<MetaAll, 9> | 'latest'\<close>: a version number
  or the sentinel.
\<close>

datatype MetaVersions = Ver nat | Latest

subsection \<open>Objects, the wrapped enum, the record and its cache\<close>

text \<open>
  A representation object has an identity (\<open>ref\<close>) and a structure (\<open>repr\<close>). Two results
  are reference-identical when the objects are equal, structurally equal when their
  \<open>repr\<close> fields are.
\<close>

record 'r object =
  ref :: nat
  repr :: 'r

text \<open>
  Modelled from the spec: the enum type \<^verbatim>\<open>MetadataAll\<close> is declared in
  \<^verbatim>\<open>../interfaces/metadata\<close>, which is not part of the sources. The spec gives it a tag
  field (\<open>index\<close>, the intrinsic version) and one accessor per known version tag that
  returns that version's representation. The accessor for a tag that is not the active
  one has no representation to return and fails.
\<close>

record 'r MetadataAll =
  index :: nat
  payload :: "'r object"

text \<open>
  The exceptions. \<open>CannotConvert s v\<close> is the error of \<^verbatim>\<open>#assertVersion\<close>, whose message is
  \<^verbatim>\<open>Cannot convert metadata from version s to v\<close>.
\<close>

datatype error =
    CannotConvert nat nat
  | NotVariant nat nat
  | NoAccessor nat
  | UnresolvedType string

definition asVariant :: "nat \<Rightarrow> 'r MetadataAll \<Rightarrow> error + 'r object" where
  "asVariant v md = (if index md = v then Inr (payload md) else Inl (NotVariant (index md) v))"

text \<open>
  The class: the two fields of the underlying \<^verbatim>\<open>Struct\<close> and the private map
  \<^verbatim>\<open>#converted\<close>.
\<close>

record 'r MetadataVersioned =
  magicNumber :: nat
  metadata :: "'r MetadataAll"
  converted :: "MetaVersions \<rightharpoonup> 'r object"

text \<open>The constructor: the decoded fields and \<^verbatim>\<open>new Map()\<close>.\<close>

definition construct :: "nat \<Rightarrow> 'r MetadataAll \<Rightarrow> 'r MetadataVersioned" where
  "construct magic md = \<lparr>magicNumber = magic, metadata = md, converted = Map.empty\<rparr>"

definition version :: "'r MetadataVersioned \<Rightarrow> nat" where
  "version this = index (metadata this)"

text \<open>
  The tags a record can carry: the enum has a representation for the versions of
  \<^verbatim>\<open>KNOWN_VERSIONS\<close> only (\<^verbatim>\<open>MetaAll = typeof KNOWN_VERSIONS[number]\<close>; the spec has producers
  emit versions 9 through the current maximum).
\<close>

definition knownVersion :: "nat \<Rightarrow> bool" where
  "knownVersion v = (v \<in> set KNOWN_VERSIONS)"

subsection \<open>The upgrade steps and the world they run in\<close>

text \<open>
  Modelled from the spec: \<^verbatim>\<open>toV10\<close>, ..., \<^verbatim>\<open>toV15\<close> and \<^verbatim>\<open>toLatest\<close>, the helpers
  \<^verbatim>\<open>toCallsOnly\<close> and \<^verbatim>\<open>getUniqTypes\<close> of \<^verbatim>\<open>./util\<close>, the registry and the base class
  \<^verbatim>\<open>Struct\<close> are imported from files that are not part of the sources. The spec makes each
  upgrade step a pure, deterministic function of the representation it is given and of
  the original record's version tag. The object a step returns is the step's choice:
  the object it was given, or a new one it has built. The reduction to calls-only is a
  pure transform of the latest representation; the registry resolves a type identifier
  or does not. The step into latest also applies the alias normalisation to the registry
  it is passed (\<open>applyAliases\<close>), and the container's serialisation reads that registry.
  They are parameters here.
\<close>

datatype 'r returned = Input | Built 'r

text \<open>The structure of what a step returned, given the structure it was handed.\<close>

fun produced :: "'r \<Rightarrow> 'r returned \<Rightarrow> 'r" where
  "produced x Input = x"
| "produced x (Built y) = y"

datatype typeExpr = TypeExpr string "typeExpr list"

record ('r, 'g, 'j) externals =
  toV10 :: "'r \<Rightarrow> nat \<Rightarrow> 'r returned"
  toV11 :: "'r \<Rightarrow> nat \<Rightarrow> 'r returned"
  toV12 :: "'r \<Rightarrow> nat \<Rightarrow> 'r returned"
  toV13 :: "'r \<Rightarrow> nat \<Rightarrow> 'r returned"
  toV14 :: "'r \<Rightarrow> nat \<Rightarrow> 'r returned"
  toV15 :: "'r \<Rightarrow> nat \<Rightarrow> 'r returned"
  toLatest :: "'r \<Rightarrow> nat \<Rightarrow> 'r returned"
  applyAliases :: "'r \<Rightarrow> nat \<Rightarrow> 'g \<Rightarrow> 'g"
  toCallsOnly :: "'r \<Rightarrow> 'r"
  typeRefs :: "'r \<Rightarrow> typeExpr list"
  resolves :: "string \<Rightarrow> bool"
  superToJSON :: "'g \<Rightarrow> nat \<Rightarrow> 'r MetadataAll \<Rightarrow> 'j"

text \<open>
  The world outside the record: the allocator of object identities, the registry
  (\<^verbatim>\<open>this.registry\<close>) and the log of the upgrade-step invocations made so far, each with the
  cache key it was made for, the object it was given, the version passed as
  \<^verbatim>\<open>metaVersion\<close> and the object it returned.
\<close>

record 'r invocation =
  target :: MetaVersions
  arg :: "'r object"
  metaVersion :: nat
  result :: "'r object"

record ('r, 'g) world =
  nextRef :: nat
  registry :: 'g
  invoked :: "'r invocation list"

text \<open>
  The call \<^verbatim>\<open>fromPrev(this.registry, prev, this.version)\<close>, made for the cache key \<open>key\<close>.
  Modelled from the spec: the step is not part of the sources. What comes back is the
  object \<open>prev\<close> itself when the step hands its input back, and a newly allocated object
  with the structure the step built otherwise. The call for the sentinel is the step
  into latest, which normalises the registry; the steps for numeric keys leave the
  registry alone.
\<close>

definition invoke ::
  "('r, 'g, 'j) externals \<Rightarrow> MetaVersions \<Rightarrow> ('r \<Rightarrow> nat \<Rightarrow> 'r returned) \<Rightarrow> 'r object \<Rightarrow> nat \<Rightarrow>
     ('r, 'g) world \<Rightarrow> 'r object \<times> ('r, 'g) world" where
  "invoke ext key fromPrev prev mv w =
     (let g = (case key of
                 Latest \<Rightarrow> applyAliases ext (repr prev) mv (registry w)
               | Ver _ \<Rightarrow> registry w)
      in case fromPrev (repr prev) mv of
           Input \<Rightarrow>
             (prev, \<lparr>nextRef = nextRef w, registry = g,
                     invoked = invoked w @
                       [\<lparr>target = key, arg = prev, metaVersion = mv, result = prev\<rparr>]\<rparr>)
         | Built y \<Rightarrow>
             (\<lparr>ref = nextRef w, repr = y\<rparr>,
              \<lparr>nextRef = nextRef w + 1, registry = g,
               invoked = invoked w @
                 [\<lparr>target = key, arg = prev, metaVersion = mv,
                   result = \<lparr>ref = nextRef w, repr = y\<rparr>\<rparr>]\<rparr>))"

subsection \<open>The accessors\<close>

type_synonym ('r, 'g) outcome = "error + ('r object \<times> 'r MetadataVersioned \<times> ('r, 'g) world)"

definition assertVersion :: "'r MetadataVersioned \<Rightarrow> nat \<Rightarrow> error + bool" where
  "assertVersion this v =
     (if version this > v then Inl (CannotConvert (version this) v)
      else Inr (version this = v))"

definition asV9 :: "'r MetadataVersioned \<Rightarrow> ('r, 'g) world \<Rightarrow> ('r, 'g) outcome" where
  "asV9 this w =
     (case assertVersion this 9 of
        Inl e \<Rightarrow> Inl e
      | Inr _ \<Rightarrow>
          (case asVariant 9 (metadata this) of
             Inl e \<Rightarrow> Inl e
           | Inr x \<Rightarrow> Inr (x, this, w)))"

text \<open>
  The number in the accessor names \<^verbatim>\<open>asCurr\<close> and \<^verbatim>\<open>asPrev\<close> of \<^verbatim>\<open>#getVersion\<close>. The source
  builds \<^verbatim>\<open>asCurr\<close> for a numeric \<^verbatim>\<open>version\<close> only; the equation for the sentinel is never
  used.
\<close>

fun asCurr :: "MetaVersions \<Rightarrow> nat" where
  "asCurr (Ver v) = v"
| "asCurr Latest = LATEST_VERSION"

fun asPrev :: "MetaVersions \<Rightarrow> nat" where
  "asPrev Latest = LATEST_VERSION"
| "asPrev (Ver v) = v - 1"

text \<open>
  \<^verbatim>\<open>#getVersion\<close> reads \<^verbatim>\<open>this[asPrev]\<close>, which runs the public getter of that name, which
  calls \<^verbatim>\<open>#getVersion\<close> again: \<open>accessor\<close> is that lookup by name. The type of \<^verbatim>\<open>version\<close>
  only admits 10 to 15 and the sentinel, so a name outside \<^verbatim>\<open>asV9\<close>, ..., \<^verbatim>\<open>asV15\<close> is
  never looked up; the model answers \<open>NoAccessor\<close> there. An exception leaves
  \<^verbatim>\<open>#converted\<close> as it was on entry, since the only write is the last statement before
  the return.
\<close>

function getVersion ::
    "('r, 'g, 'j) externals \<Rightarrow> MetaVersions \<Rightarrow> ('r \<Rightarrow> nat \<Rightarrow> 'r returned) \<Rightarrow> 'r MetadataVersioned \<Rightarrow>
       ('r, 'g) world \<Rightarrow> ('r, 'g) outcome"
  and accessor ::
    "('r, 'g, 'j) externals \<Rightarrow> nat \<Rightarrow> 'r MetadataVersioned \<Rightarrow> ('r, 'g) world \<Rightarrow> ('r, 'g) outcome"
where
  "getVersion ext key fromPrev this w =
     (case (if key \<noteq> Latest then assertVersion this (asCurr key) else Inr False) of
        Inl e \<Rightarrow> Inl e
      | Inr isCurr \<Rightarrow>
          if isCurr then
            (case asVariant (asCurr key) (metadata this) of
               Inl e \<Rightarrow> Inl e
             | Inr x \<Rightarrow> Inr (x, this, w))
          else
            (case converted this key of
               Some x \<Rightarrow> Inr (x, this, w)
             | None \<Rightarrow>
                 (case accessor ext (asPrev key) this w of
                    Inl e \<Rightarrow> Inl e
                  | Inr (prev, this', w') \<Rightarrow>
                      (case invoke ext key fromPrev prev (version this') w' of
                         (out, w'') \<Rightarrow>
                           Inr (out, this'\<lparr>converted := (converted this')(key \<mapsto> out)\<rparr>, w'')))))"
| "accessor ext n this w =
     (if n = 9 then asV9 this w
      else if n = 10 then getVersion ext (Ver 10) (toV10 ext) this w
      else if n = 11 then getVersion ext (Ver 11) (toV11 ext) this w
      else if n = 12 then getVersion ext (Ver 12) (toV12 ext) this w
      else if n = 13 then getVersion ext (Ver 13) (toV13 ext) this w
      else if n = 14 then getVersion ext (Ver 14) (toV14 ext) this w
      else if n = 15 then getVersion ext (Ver 15) (toV15 ext) this w
      else Inl (NoAccessor n))"
  by pat_completeness auto
termination
  by (relation "measure (\<lambda>x. case x of
          Inl (ext, key, fromPrev, this, w) \<Rightarrow>
            (case key of Latest \<Rightarrow> 40 | Ver v \<Rightarrow> 2 * v + 2)
        | Inr (ext, n, this, w) \<Rightarrow> (if 10 \<le> n \<and> n \<le> 15 then 2 * n + 3 else 0))")
     (auto simp: LATEST_VERSION_def KNOWN_VERSIONS_def split: MetaVersions.splits)

declare getVersion.simps [simp del] accessor.simps [simp del]

definition asV10 :: "('r, 'g, 'j) externals \<Rightarrow> 'r MetadataVersioned \<Rightarrow> ('r, 'g) world \<Rightarrow> ('r, 'g) outcome" where
  "asV10 ext this w = getVersion ext (Ver 10) (toV10 ext) this w"

definition asV11 :: "('r, 'g, 'j) externals \<Rightarrow> 'r MetadataVersioned \<Rightarrow> ('r, 'g) world \<Rightarrow> ('r, 'g) outcome" where
  "asV11 ext this w = getVersion ext (Ver 11) (toV11 ext) this w"

definition asV12 :: "('r, 'g, 'j) externals \<Rightarrow> 'r MetadataVersioned \<Rightarrow> ('r, 'g) world \<Rightarrow> ('r, 'g) outcome" where
  "asV12 ext this w = getVersion ext (Ver 12) (toV12 ext) this w"

definition asV13 :: "('r, 'g, 'j) externals \<Rightarrow> 'r MetadataVersioned \<Rightarrow> ('r, 'g) world \<Rightarrow> ('r, 'g) outcome" where
  "asV13 ext this w = getVersion ext (Ver 13) (toV13 ext) this w"

definition asV14 :: "('r, 'g, 'j) externals \<Rightarrow> 'r MetadataVersioned \<Rightarrow> ('r, 'g) world \<Rightarrow> ('r, 'g) outcome" where
  "asV14 ext this w = getVersion ext (Ver 14) (toV14 ext) this w"

definition asV15 :: "('r, 'g, 'j) externals \<Rightarrow> 'r MetadataVersioned \<Rightarrow> ('r, 'g) world \<Rightarrow> ('r, 'g) outcome" where
  "asV15 ext this w = getVersion ext (Ver 15) (toV15 ext) this w"

definition asLatest :: "('r, 'g, 'j) externals \<Rightarrow> 'r MetadataVersioned \<Rightarrow> ('r, 'g) world \<Rightarrow> ('r, 'g) outcome" where
  "asLatest ext this w = getVersion ext Latest (toLatest ext) this w"

subsection \<open>The derived views\<close>

text \<open>
  Modelled from the spec: \<^verbatim>\<open>registry.createTypeUnsafe('MetadataAll', [value, index])\<close> is
  the generic container's constructor, not part of the sources: it builds the enum with
  the given tag around a new object holding the given representation.
\<close>

definition createMetadataAll ::
  "'r \<Rightarrow> nat \<Rightarrow> ('r, 'g) world \<Rightarrow> 'r MetadataAll \<times> ('r, 'g) world" where
  "createMetadataAll v idx w =
     (\<lparr>index = idx, payload = \<lparr>ref = nextRef w, repr = v\<rparr>\<rparr>, w\<lparr>nextRef := nextRef w + 1\<rparr>)"

text \<open>\<^verbatim>\<open>asCallsOnly\<close> returns the new record; the source record and the world are returned too.\<close>

definition asCallsOnly ::
  "('r, 'g, 'j) externals \<Rightarrow> 'r MetadataVersioned \<Rightarrow> ('r, 'g) world \<Rightarrow>
     error + ('r MetadataVersioned \<times> 'r MetadataVersioned \<times> ('r, 'g) world)" where
  "asCallsOnly ext this w =
     (case asLatest ext this w of
        Inl e \<Rightarrow> Inl e
      | Inr (latest, this', w') \<Rightarrow>
          (case createMetadataAll (toCallsOnly ext (repr latest)) TO_CALLS_VERSION w' of
             (md, w'') \<Rightarrow> Inr (construct (magicNumber this) md, this', w'')))"

text \<open>
  Modelled from the spec: the helper \<^verbatim>\<open>getUniqTypes\<close> of \<^verbatim>\<open>./util\<close> is not part of the
  sources. The spec has it walk the type references of the latest representation,
  recursively through composite and generic type expressions, and collect the distinct
  identifiers met. An identifier the registry cannot resolve ends the walk with an error
  carrying it when \<open>throwError\<close> is set; otherwise it is collected like any other and the
  walk goes on.
\<close>

fun walk :: "(string \<Rightarrow> bool) \<Rightarrow> bool \<Rightarrow> typeExpr \<Rightarrow> string list \<Rightarrow> error + string list"
  and walkAll :: "(string \<Rightarrow> bool) \<Rightarrow> bool \<Rightarrow> typeExpr list \<Rightarrow> string list \<Rightarrow> error + string list"
where
  "walk res throwError (TypeExpr name args) seen =
     (if \<not> res name \<and> throwError then Inl (UnresolvedType name)
      else walkAll res throwError args (List.insert name seen))"
| "walkAll res throwError [] seen = Inr seen"
| "walkAll res throwError (t # ts) seen =
     (case walk res throwError t seen of
        Inl e \<Rightarrow> Inl e
      | Inr seen' \<Rightarrow> walkAll res throwError ts seen')"

definition util_getUniqTypes :: "('r, 'g, 'j) externals \<Rightarrow> 'r \<Rightarrow> bool \<Rightarrow> error + string list" where
  "util_getUniqTypes ext latest throwError =
     walkAll (resolves ext) throwError (typeRefs ext latest) []"

text \<open>
  The method evaluates \<^verbatim>\<open>this.asLatest\<close> and then calls the helper, so an error of the
  helper comes after the cache has been written: the record and the world are returned
  beside the result.
\<close>

definition getUniqTypes ::
  "('r, 'g, 'j) externals \<Rightarrow> bool \<Rightarrow> 'r MetadataVersioned \<Rightarrow> ('r, 'g) world \<Rightarrow>
     (error + string list) \<times> 'r MetadataVersioned \<times> ('r, 'g) world" where
  "getUniqTypes ext throwError this w =
     (case asLatest ext this w of
        Inl e \<Rightarrow> (Inl e, this, w)
      | Inr (latest, this', w') \<Rightarrow> (util_getUniqTypes ext (repr latest) throwError, this', w'))"

text \<open>
  \<^verbatim>\<open>toJSON\<close> evaluates \<^verbatim>\<open>this.asLatest\<close> and then calls \<^verbatim>\<open>super.toJSON()\<close>, which serialises
  the two fields under the registry as the evaluation has left it.
\<close>

definition toJSON ::
  "('r, 'g, 'j) externals \<Rightarrow> 'r MetadataVersioned \<Rightarrow> ('r, 'g) world \<Rightarrow>
     error + ('j \<times> 'r MetadataVersioned \<times> ('r, 'g) world)" where
  "toJSON ext this w =
     (case asLatest ext this w of
        Inl e \<Rightarrow> Inl e
      | Inr (_, this', w') \<Rightarrow>
          Inr (superToJSON ext (registry w') (magicNumber this') (metadata this'), this', w'))"

subsection \<open>A record's lifetime\<close>

text \<open>
  The public operations, and what a sequence of them does to the record and the world. A
  call that throws is caught by the caller, who goes on with the record as it is.
\<close>

datatype call = AsV nat | AsLatest | AsCallsOnly | GetUniqTypes bool | ToJSON

fun perform ::
  "('r, 'g, 'j) externals \<Rightarrow> call \<Rightarrow> 'r MetadataVersioned \<times> ('r, 'g) world \<Rightarrow> 'r MetadataVersioned \<times> ('r, 'g) world" where
  "perform ext (AsV n) (this, w) =
     (case accessor ext n this w of Inl e \<Rightarrow> (this, w) | Inr (_, this', w') \<Rightarrow> (this', w'))"
| "perform ext AsLatest (this, w) =
     (case asLatest ext this w of Inl e \<Rightarrow> (this, w) | Inr (_, this', w') \<Rightarrow> (this', w'))"
| "perform ext AsCallsOnly (this, w) =
     (case asCallsOnly ext this w of Inl e \<Rightarrow> (this, w) | Inr (_, this', w') \<Rightarrow> (this', w'))"
| "perform ext (GetUniqTypes throwError) (this, w) =
     (case getUniqTypes ext throwError this w of (_, this', w') \<Rightarrow> (this', w'))"
| "perform ext ToJSON (this, w) =
     (case toJSON ext this w of Inl e \<Rightarrow> (this, w) | Inr (_, this', w') \<Rightarrow> (this', w'))"

fun run ::
  "('r, 'g, 'j) externals \<Rightarrow> call list \<Rightarrow> 'r MetadataVersioned \<times> ('r, 'g) world \<Rightarrow> 'r MetadataVersioned \<times> ('r, 'g) world" where
  "run ext [] st = st"
| "run ext (c # cs) st = run ext cs (perform ext c st)"

section \<open>What the spec says, in its own terms\<close>

text \<open>
  The step registered for the pair \<open>(n - 1, n)\<close>, the structure it gives, and the spec's
  chain: \<open>k\<close> adjacent steps in ascending order from a representation at version \<open>s\<close>,
  each given \<open>s\<close> as context.
\<close>

definition stepFor :: "('r, 'g, 'j) externals \<Rightarrow> nat \<Rightarrow> 'r \<Rightarrow> nat \<Rightarrow> 'r returned" where
  "stepFor ext n =
     (if n = 10 then toV10 ext
      else if n = 11 then toV11 ext
      else if n = 12 then toV12 ext
      else if n = 13 then toV13 ext
      else if n = 14 then toV14 ext
      else toV15 ext)"

definition stepInto :: "('r, 'g, 'j) externals \<Rightarrow> nat \<Rightarrow> 'r \<Rightarrow> nat \<Rightarrow> 'r" where
  "stepInto ext n x mv = produced x (stepFor ext n x mv)"

primrec upgradeSteps :: "('r, 'g, 'j) externals \<Rightarrow> nat \<Rightarrow> nat \<Rightarrow> 'r \<Rightarrow> 'r" where
  "upgradeSteps ext s 0 x = x"
| "upgradeSteps ext s (Suc k) x = stepInto ext (s + Suc k) (upgradeSteps ext s k x) s"

definition native :: "'r MetadataVersioned \<Rightarrow> 'r" where
  "native this = repr (payload (metadata this))"

text \<open>
  Modelled from the spec: \<^verbatim>\<open>toLatest\<close> lives in \<^verbatim>\<open>./v15/toLatest.js\<close>, which is not part of
  the sources. The spec makes the latest representation the one of the newest known
  version, with no copy: the step hands back the object it is given.
\<close>

definition toLatest_spec :: "'r \<Rightarrow> nat \<Rightarrow> 'r returned" where
  "toLatest_spec v15 origVersion = Input"

text \<open>The structure the spec expects under each cache key.\<close>

definition expected :: "('r, 'g, 'j) externals \<Rightarrow> 'r MetadataVersioned \<Rightarrow> MetaVersions \<Rightarrow> 'r" where
  "expected ext this key =
     (case key of
        Ver v \<Rightarrow> upgradeSteps ext (version this) (v - version this) (native this)
      | Latest \<Rightarrow>
          (let v15 = upgradeSteps ext (version this) (LATEST_VERSION - version this) (native this)
           in produced v15 (toLatest ext v15 (version this))))"

definition cacheKey :: "'r MetadataVersioned \<Rightarrow> MetaVersions \<Rightarrow> bool" where
  "cacheKey this key =
     (case key of Ver v \<Rightarrow> version this < v \<and> v \<le> LATEST_VERSION | Latest \<Rightarrow> True)"

text \<open>
  The cache invariant: an entry sits under a key above the intrinsic version (or under the
  sentinel), holds the structure the chain gives, and the entry it was computed from is
  there too.
\<close>

definition cacheSound :: "('r, 'g, 'j) externals \<Rightarrow> 'r MetadataVersioned \<Rightarrow> bool" where
  "cacheSound ext this \<longleftrightarrow>
     (\<forall>key x. converted this key = Some x \<longrightarrow>
        cacheKey this key \<and> repr x = expected ext this key \<and>
        (version this < asPrev key \<longrightarrow> converted this (Ver (asPrev key)) \<noteq> None))"

text \<open>
  The log and the cache agree: every cache entry was returned by one logged invocation,
  made for that key with the record's own version as context, and no key has two.
\<close>

definition logExact :: "'r MetadataVersioned \<Rightarrow> ('r, 'g) world \<Rightarrow> bool" where
  "logExact this w \<longleftrightarrow>
     distinct (map target (invoked w)) \<and>
     (\<forall>i \<in> set (invoked w).
        metaVersion i = version this \<and> converted this (target i) = Some (result i)) \<and>
     (\<forall>key x. converted this key = Some x \<longrightarrow> key \<in> target ` set (invoked w))"

text \<open>
  The objects of a record are its payload and what its cache holds. Every one of them has
  been allocated, and no identity stands for two of them: nothing has been written over
  an object after it was made.
\<close>

definition isObject :: "'r MetadataVersioned \<Rightarrow> 'r object \<Rightarrow> bool" where
  "isObject this x \<longleftrightarrow> x = payload (metadata this) \<or> (\<exists>key. converted this key = Some x)"

definition allocated :: "'r MetadataVersioned \<Rightarrow> ('r, 'g) world \<Rightarrow> bool" where
  "allocated this w \<longleftrightarrow>
     (\<forall>x. isObject this x \<longrightarrow> ref x < nextRef w) \<and>
     (\<forall>x y. isObject this x \<longrightarrow> isObject this y \<longrightarrow> ref x = ref y \<longrightarrow> x = y)"

text \<open>
  The registry is the one the record was constructed under, \<open>g0\<close>, normalised by the step
  into latest exactly when the sentinel entry is in the cache.
\<close>

definition aliased ::
  "('r, 'g, 'j) externals \<Rightarrow> 'g \<Rightarrow> 'r MetadataVersioned \<Rightarrow> ('r, 'g) world \<Rightarrow> bool" where
  "aliased ext g0 this w \<longleftrightarrow>
     registry w =
       (case converted this Latest of
          None \<Rightarrow> g0
        | Some _ \<Rightarrow>
            applyAliases ext
              (upgradeSteps ext (version this) (LATEST_VERSION - version this) (native this))
              (version this) g0)"

text \<open>
  What a call leaves alone: the wrapped fields, the entries already cached, and the log
  written so far. New entries are under keys of \<open>K\<close> only.
\<close>

definition extends ::
  "'r MetadataVersioned \<Rightarrow> ('r, 'g) world \<Rightarrow> MetaVersions set \<Rightarrow> 'r MetadataVersioned \<Rightarrow> ('r, 'g) world \<Rightarrow> bool" where
  "extends this w K this' w' \<longleftrightarrow>
     metadata this' = metadata this \<and> magicNumber this' = magicNumber this \<and>
     (\<forall>key x. converted this key = Some x \<longrightarrow> converted this' key = Some x) \<and>
     (\<forall>key. converted this key = None \<longrightarrow> converted this' key \<noteq> None \<longrightarrow> key \<in> K) \<and>
     nextRef w \<le> nextRef w' \<and>
     (\<exists>new. invoked w' = invoked w @ new)"

text \<open>The identifiers a type expression mentions.\<close>

fun idents :: "typeExpr \<Rightarrow> string set" where
  "idents (TypeExpr name args) = insert name (\<Union> (idents ` set args))"

text \<open>
  What a call keeps: the frame above, and each invariant that held before it.
\<close>

definition keeps ::
  "('r, 'g, 'j) externals \<Rightarrow> 'r MetadataVersioned \<Rightarrow> ('r, 'g) world \<Rightarrow> 'r MetadataVersioned \<Rightarrow> ('r, 'g) world \<Rightarrow> bool" where
  "keeps ext this w this' w' \<longleftrightarrow>
     extends this w UNIV this' w' \<and>
     (cacheSound ext this \<longrightarrow> cacheSound ext this') \<and>
     (logExact this w \<longrightarrow> logExact this' w') \<and>
     (allocated this w \<longrightarrow> allocated this' w') \<and>
     (\<forall>g0. cacheSound ext this \<longrightarrow> aliased ext g0 this w \<longrightarrow> aliased ext g0 this' w')"

subsection \<open>A concrete instance\<close>

text \<open>
  Steps that build a list with their target version and the context they were given
  appended, so the structure of a representation shows the chain that built it; the step
  into latest as the spec has it; a registry that is a flag, set by the normalisation and
  shown by the serialisation; a record at version \<open>s\<close> whose native payload is \<open>[s]\<close>; a
  world with one object allocated, the flag down and nothing logged.
\<close>

definition demoExt :: "(nat list, bool, bool \<times> nat) externals" where
  "demoExt =
     \<lparr>toV10 = (\<lambda>x mv. Built (x @ [10, mv])), toV11 = (\<lambda>x mv. Built (x @ [11, mv])),
      toV12 = (\<lambda>x mv. Built (x @ [12, mv])), toV13 = (\<lambda>x mv. Built (x @ [13, mv])),
      toV14 = (\<lambda>x mv. Built (x @ [14, mv])), toV15 = (\<lambda>x mv. Built (x @ [15, mv])),
      toLatest = toLatest_spec, applyAliases = (\<lambda>x mv g. True), toCallsOnly = take 1,
      typeRefs = (\<lambda>x. [TypeExpr ''Vec'' [TypeExpr ''Foo'' []], TypeExpr ''Vec'' []]),
      resolves = (\<lambda>n. n = ''Vec''),
      superToJSON = (\<lambda>g magic md. (g, magic + index md))\<rparr>"

definition demoRecord :: "nat \<Rightarrow> nat list MetadataVersioned" where
  "demoRecord s = construct 1635018093 \<lparr>index = s, payload = \<lparr>ref = 0, repr = [s]\<rparr>\<rparr>"

definition demoWorld :: "(nat list, bool) world" where
  "demoWorld = \<lparr>nextRef = 1, registry = False, invoked = []\<rparr>"

section \<open>Unfolding the accessors\<close>

lemma known_iff: "knownVersion v \<longleftrightarrow> 9 \<le> v \<and> v \<le> 15"
  by (auto simp: knownVersion_def KNOWN_VERSIONS_def)

lemma latest_15: "LATEST_VERSION = 15"
  by (simp add: LATEST_VERSION_def KNOWN_VERSIONS_def)

lemma range_cases:
  "10 \<le> n \<Longrightarrow> n \<le> 15 \<Longrightarrow> n = 10 \<or> n = 11 \<or> n = 12 \<or> n = 13 \<or> n = 14 \<or> n = (15::nat)"
  by arith

lemma accessor_getVersion:
  assumes "10 \<le> n" "n \<le> 15"
  shows "accessor ext n this w = getVersion ext (Ver n) (stepFor ext n) this w"
  using range_cases [OF assms] by (auto simp: accessor.simps stepFor_def)

lemma accessor_9: "accessor ext 9 this w = asV9 this w"
  by (simp add: accessor.simps)

lemma accessor_none:
  "n < 9 \<or> 15 < n \<Longrightarrow> accessor ext n this w = Inl (NoAccessor n)"
  by (auto simp: accessor.simps)

lemma accessor_native:
  assumes "knownVersion (version this)"
  shows "accessor ext (version this) this w = Inr (payload (metadata this), this, w)"
proof (cases "version this = 9")
  case True
  then show ?thesis
    by (simp add: accessor_9 asV9_def assertVersion_def asVariant_def version_def)
next
  case False
  with assms have r: "10 \<le> version this" "version this \<le> 15" by (auto simp: known_iff)
  show ?thesis
    unfolding accessor_getVersion [OF r]
    by (simp add: getVersion.simps [of ext "Ver (version this)"] assertVersion_def
        asVariant_def version_def [symmetric])
qed

lemma accessor_downgrade:
  assumes "knownVersion n" "n < version this"
  shows "accessor ext n this w = Inl (CannotConvert (version this) n)"
proof (cases "n = 9")
  case True
  with assms show ?thesis
    by (simp add: accessor_9 asV9_def assertVersion_def)
next
  case False
  with assms have r: "10 \<le> n" "n \<le> 15" by (auto simp: known_iff)
  show ?thesis
    unfolding accessor_getVersion [OF r] using assms(2)
    by (simp add: getVersion.simps [of ext "Ver n"] assertVersion_def)
qed

lemma accessor_upgrade:
  assumes "10 \<le> n" "n \<le> 15" "version this < n"
  shows "accessor ext n this w =
     (case converted this (Ver n) of
        Some x \<Rightarrow> Inr (x, this, w)
      | None \<Rightarrow>
          (case accessor ext (n - 1) this w of
             Inl e \<Rightarrow> Inl e
           | Inr (prev, this', w') \<Rightarrow>
               (case invoke ext (Ver n) (stepFor ext n) prev (version this') w' of
                  (out, w'') \<Rightarrow>
                    Inr (out, this'\<lparr>converted := (converted this')(Ver n \<mapsto> out)\<rparr>, w''))))"
  unfolding accessor_getVersion [OF assms(1,2)] using assms(3)
  by (simp add: getVersion.simps [of ext "Ver n"] assertVersion_def split: option.split)

lemma asLatest_unfold:
  "asLatest ext this w =
     (case converted this Latest of
        Some x \<Rightarrow> Inr (x, this, w)
      | None \<Rightarrow>
          (case accessor ext 15 this w of
             Inl e \<Rightarrow> Inl e
           | Inr (prev, this', w') \<Rightarrow>
               (case invoke ext Latest (toLatest ext) prev (version this') w' of
                  (out, w'') \<Rightarrow>
                    Inr (out, this'\<lparr>converted := (converted this')(Latest \<mapsto> out)\<rparr>, w''))))"
  by (simp add: asLatest_def getVersion.simps [of ext Latest] latest_15 split: option.split)

section \<open>Writing one cache entry\<close>

lemma converted_update_frame [simp]:
  "version (this\<lparr>converted := c\<rparr>) = version this"
  "native (this\<lparr>converted := c\<rparr>) = native this"
  "expected ext (this\<lparr>converted := c\<rparr>) key = expected ext this key"
  "cacheKey (this\<lparr>converted := c\<rparr>) key = cacheKey this key"
  by (simp_all add: version_def native_def expected_def cacheKey_def Let_def
      split: MetaVersions.split)

lemma same_metadata:
  assumes "metadata this' = metadata this"
  shows "version this' = version this" "native this' = native this"
    "expected ext this' key = expected ext this key" "cacheKey this' key = cacheKey this key"
  using assms
  by (simp_all add: version_def native_def expected_def cacheKey_def Let_def
      split: MetaVersions.split)

lemma invoke_log:
  "invoke ext key f prev mv w = (out, w2) \<Longrightarrow>
     invoked w2 = invoked w @ [\<lparr>target = key, arg = prev, metaVersion = mv, result = out\<rparr>]"
  by (auto simp: invoke_def Let_def split: returned.splits)

lemma invoke_repr:
  "invoke ext key f prev mv w = (out, w2) \<Longrightarrow> repr out = produced (repr prev) (f (repr prev) mv)"
  by (auto simp: invoke_def Let_def split: returned.splits)

lemma invoke_ref:
  "invoke ext key f prev mv w = (out, w2) \<Longrightarrow>
     (out = prev \<and> nextRef w2 = nextRef w) \<or> (ref out = nextRef w \<and> nextRef w2 = nextRef w + 1)"
  by (auto simp: invoke_def Let_def split: returned.splits)

lemma invoke_registry:
  "invoke ext key f prev mv w = (out, w2) \<Longrightarrow>
     registry w2 =
       (case key of Latest \<Rightarrow> applyAliases ext (repr prev) mv (registry w) | Ver _ \<Rightarrow> registry w)"
  by (auto simp: invoke_def Let_def split: returned.splits)

lemma store_cacheSound:
  assumes "cacheSound ext this1" "cacheKey this1 key" "repr out = expected ext this1 key"
    and "version this1 < asPrev key \<longrightarrow> converted this1 (Ver (asPrev key)) \<noteq> None"
  shows "cacheSound ext (this1\<lparr>converted := (converted this1)(key \<mapsto> out)\<rparr>)"
  using assms unfolding cacheSound_def by (simp, blast)

lemma store_logExact:
  assumes "logExact this1 w1" "converted this1 key = None"
    and "invoke ext key f prev (version this1) w1 = (out, w2)"
  shows "logExact (this1\<lparr>converted := (converted this1)(key \<mapsto> out)\<rparr>) w2"
proof -
  let ?this2 = "this1\<lparr>converted := (converted this1)(key \<mapsto> out)\<rparr>"
  from assms(3) have w2: "invoked w2 =
      invoked w1 @ [\<lparr>target = key, arg = prev, metaVersion = version this1, result = out\<rparr>]"
    by (rule invoke_log)
  from assms(1,2) have notin: "key \<notin> target ` set (invoked w1)"
    by (auto simp: logExact_def)
  from assms(1) have d: "distinct (map target (invoked w1))"
    by (simp add: logExact_def)
  have "distinct (map target (invoked w2))"
    using d notin by (simp add: w2)
  moreover have "\<forall>i \<in> set (invoked w2).
      metaVersion i = version ?this2 \<and> converted ?this2 (target i) = Some (result i)"
    using assms(1) notin by (auto simp: w2 logExact_def)
  moreover have "\<forall>k x. converted ?this2 k = Some x \<longrightarrow> k \<in> target ` set (invoked w2)"
    using assms(1) by (auto simp: w2 logExact_def)
  ultimately show ?thesis unfolding logExact_def by blast
qed

lemma store_allocated:
  assumes "allocated this1 w1" "invoke ext key f prev mv w1 = (out, w2)" "isObject this1 prev"
  shows "allocated (this1\<lparr>converted := (converted this1)(key \<mapsto> out)\<rparr>) w2"
proof -
  let ?this2 = "this1\<lparr>converted := (converted this1)(key \<mapsto> out)\<rparr>"
  have sub: "isObject this1 x \<or> x = out" if "isObject ?this2 x" for x
    using that by (auto simp: isObject_def split: if_splits)
  from assms(1) have lt: "\<And>x. isObject this1 x \<Longrightarrow> ref x < nextRef w1"
    and inj: "\<And>x y. isObject this1 x \<Longrightarrow> isObject this1 y \<Longrightarrow> ref x = ref y \<Longrightarrow> x = y"
    by (auto simp: allocated_def)
  from invoke_ref [OF assms(2)] show ?thesis
  proof
    assume a: "out = prev \<and> nextRef w2 = nextRef w1"
    then have "isObject this1 x" if "isObject ?this2 x" for x
      using sub [OF that] assms(3) by auto
    with lt inj a show ?thesis
      unfolding allocated_def by metis
  next
    assume a: "ref out = nextRef w1 \<and> nextRef w2 = nextRef w1 + 1"
    have "ref x < nextRef w2" if "isObject ?this2 x" for x
      using sub [OF that] lt [of x] a by auto
    moreover have "x = y" if "isObject ?this2 x" "isObject ?this2 y" "ref x = ref y" for x y
      using sub [OF that(1)] sub [OF that(2)] that(3) lt [of x] lt [of y] inj [of x y] a
      by auto
    ultimately show ?thesis
      unfolding allocated_def by blast
  qed
qed

lemma extends_refl: "extends this w K this w"
  by (simp add: extends_def)

lemma store_extends:
  assumes "extends this w K this1 w1" "converted this key = None"
    and "invoke ext key f prev mv w1 = (out, w2)" "K \<subseteq> K'" "key \<in> K'"
  shows "extends this w K' (this1\<lparr>converted := (converted this1)(key \<mapsto> out)\<rparr>) w2"
proof -
  from assms(3) have w2: "nextRef w1 \<le> nextRef w2"
    "invoked w2 = invoked w1 @ [\<lparr>target = key, arg = prev, metaVersion = mv, result = out\<rparr>]"
    using invoke_ref [OF assms(3)] invoke_log [OF assms(3)] by auto
  from assms(1) obtain new where new: "invoked w1 = invoked w @ new"
    unfolding extends_def by blast
  have "\<exists>new'. invoked w2 = invoked w @ new'"
    by (simp add: w2 new)
  moreover have "\<forall>k x. converted this k = Some x \<longrightarrow>
      converted (this1\<lparr>converted := (converted this1)(key \<mapsto> out)\<rparr>) k = Some x"
    using assms(1,2) by (auto simp: extends_def)
  moreover have "\<forall>k. converted this k = None \<longrightarrow>
      converted (this1\<lparr>converted := (converted this1)(key \<mapsto> out)\<rparr>) k \<noteq> None \<longrightarrow> k \<in> K'"
    using assms(1,4,5) by (auto simp: extends_def)
  moreover have "nextRef w \<le> nextRef w2"
    using assms(1) w2(1) by (simp add: extends_def)
  ultimately show ?thesis
    using assms(1) unfolding extends_def by simp
qed

section \<open>A successful upgrade\<close>

lemma accessor_ok:
  assumes known: "knownVersion (version this)"
  shows "version this + k \<le> 15 \<Longrightarrow>
    \<exists>x this' w'. accessor ext (version this + k) this w = Inr (x, this', w') \<and>
       extends this w (Ver ` {..version this + k}) this' w' \<and>
       registry w' = registry w \<and>
       (0 < k \<longrightarrow> converted this' (Ver (version this + k)) = Some x) \<and>
       (k = 0 \<longrightarrow> x = payload (metadata this) \<and> this' = this \<and> w' = w) \<and>
       (cacheSound ext this \<longrightarrow>
          cacheSound ext this' \<and> repr x = upgradeSteps ext (version this) k (native this)) \<and>
       (logExact this w \<longrightarrow> logExact this' w') \<and>
       (allocated this w \<longrightarrow> allocated this' w')"
proof (induction k)
  case 0
  show ?case
    by (simp add: accessor_native [OF known] native_def extends_refl)
next
  case (Suc k)
  let ?s = "version this"
  let ?n = "?s + Suc k"
  have lt: "?s < ?n" and le: "?n \<le> 15" and ge: "10 \<le> ?n"
    using Suc.prems known by (simp_all add: known_iff)
  note unf = accessor_upgrade [OF ge le lt, of ext w]
  show ?case
  proof (cases "converted this (Ver ?n)")
    case (Some x)
    have acc: "accessor ext ?n this w = Inr (x, this, w)"
      unfolding unf Some by simp
    have "cacheSound ext this \<Longrightarrow> repr x = upgradeSteps ext ?s (Suc k) (native this)"
      using Some by (auto simp: cacheSound_def expected_def)
    with acc Some show ?thesis
      by (auto simp: extends_refl)
  next
    case None
    from Suc.IH Suc.prems obtain prev this1 w1 where
      prev: "accessor ext (?s + k) this w = Inr (prev, this1, w1)"
      and ext1: "extends this w (Ver ` {..?s + k}) this1 w1"
      and rg1: "registry w1 = registry w"
      and hit1: "0 < k \<longrightarrow> converted this1 (Ver (?s + k)) = Some prev"
      and nat1: "k = 0 \<longrightarrow> prev = payload (metadata this)"
      and cs1: "cacheSound ext this \<longrightarrow>
          cacheSound ext this1 \<and> repr prev = upgradeSteps ext ?s k (native this)"
      and lg1: "logExact this w \<longrightarrow> logExact this1 w1"
      and al1: "allocated this w \<longrightarrow> allocated this1 w1"
      by auto
    obtain out w2 where
      iv: "invoke ext (Ver ?n) (stepFor ext ?n) prev (version this1) w1 = (out, w2)"
      by (cases "invoke ext (Ver ?n) (stepFor ext ?n) prev (version this1) w1") auto
    let ?this2 = "this1\<lparr>converted := (converted this1)(Ver ?n \<mapsto> out)\<rparr>"
    have prev': "accessor ext (?n - 1) this w = Inr (prev, this1, w1)"
      using prev by simp
    have acc: "accessor ext ?n this w = Inr (out, ?this2, w2)"
      unfolding unf None prev' using iv by simp
    have md: "metadata this1 = metadata this"
      using ext1 by (simp add: extends_def)
    note v1 = same_metadata [OF md]
    have none1: "converted this1 (Ver ?n) = None"
    proof (rule ccontr)
      assume "converted this1 (Ver ?n) \<noteq> None"
      with ext1 None have "Ver ?n \<in> Ver ` {..?s + k}"
        unfolding extends_def by blast
      then show False by auto
    qed
    have ro: "repr out = stepInto ext ?n (repr prev) ?s"
      using invoke_repr [OF iv] by (simp add: stepInto_def v1)
    have rg2: "registry w2 = registry w"
      using invoke_registry [OF iv] rg1 by simp
    have obj: "isObject this1 prev"
      using hit1 nat1 md by (cases k) (auto simp: isObject_def)
    have ck: "cacheKey this1 (Ver ?n)"
      using lt le by (simp add: cacheKey_def v1 latest_15)
    have pk: "version this1 < asPrev (Ver ?n) \<longrightarrow> converted this1 (Ver (asPrev (Ver ?n))) \<noteq> None"
      using hit1 by (auto simp: v1)
    have cs2: "cacheSound ext ?this2 \<and> repr out = upgradeSteps ext ?s (Suc k) (native this)"
      if "cacheSound ext this"
    proof -
      from that cs1 have a: "cacheSound ext this1"
        and b: "repr prev = upgradeSteps ext ?s k (native this)" by simp_all
      have c: "repr out = upgradeSteps ext ?s (Suc k) (native this)"
        using ro b by simp
      then have "repr out = expected ext this1 (Ver ?n)"
        by (simp add: expected_def v1)
      from store_cacheSound [OF a ck this pk] c show ?thesis by simp
    qed
    have lg2: "logExact ?this2 w2" if "logExact this w"
      using store_logExact [OF _ none1 iv] lg1 that by simp
    have al2: "allocated ?this2 w2" if "allocated this w"
      using store_allocated [OF _ iv obj] al1 that by simp
    have ex2: "extends this w (Ver ` {..?n}) ?this2 w2"
      by (rule store_extends [OF ext1 None iv]) auto
    show ?thesis
      using acc cs2 lg2 al2 ex2 rg2 by simp
  qed
qed

lemma accessor_ok_at:
  assumes "knownVersion (version this)" "version this \<le> n" "n \<le> 15"
  shows "\<exists>x this' w'. accessor ext n this w = Inr (x, this', w') \<and>
       extends this w (Ver ` {..n}) this' w' \<and>
       registry w' = registry w \<and>
       (version this < n \<longrightarrow> converted this' (Ver n) = Some x) \<and>
       (n = version this \<longrightarrow> x = payload (metadata this) \<and> this' = this \<and> w' = w) \<and>
       (cacheSound ext this \<longrightarrow>
          cacheSound ext this' \<and>
          repr x = upgradeSteps ext (version this) (n - version this) (native this)) \<and>
       (logExact this w \<longrightarrow> logExact this' w') \<and>
       (allocated this w \<longrightarrow> allocated this' w')"
proof -
  from assms(2) obtain k where n: "n = version this + k"
    using le_Suc_ex by blast
  from accessor_ok [OF assms(1), of k ext w] assms(3) show ?thesis
    unfolding n by simp
qed

lemma asLatest_ok:
  assumes known: "knownVersion (version this)"
  shows "\<exists>x this' w'. asLatest ext this w = Inr (x, this', w') \<and>
       extends this w UNIV this' w' \<and>
       converted this' Latest = Some x \<and>
       (cacheSound ext this \<longrightarrow> cacheSound ext this' \<and> repr x = expected ext this Latest) \<and>
       (logExact this w \<longrightarrow> logExact this' w') \<and>
       (allocated this w \<longrightarrow> allocated this' w') \<and>
       (\<forall>g0. cacheSound ext this \<longrightarrow> aliased ext g0 this w \<longrightarrow> aliased ext g0 this' w')"
proof (cases "converted this Latest")
  case (Some x)
  have "asLatest ext this w = Inr (x, this, w)"
    unfolding asLatest_unfold Some by simp
  moreover have "cacheSound ext this \<Longrightarrow> repr x = expected ext this Latest"
    using Some by (auto simp: cacheSound_def)
  ultimately show ?thesis
    using Some by (auto simp: extends_refl)
next
  case None
  let ?s = "version this"
  let ?v15 = "upgradeSteps ext ?s (15 - ?s) (native this)"
  from known have le: "?s \<le> 15" by (simp add: known_iff)
  from accessor_ok_at [OF known le order_refl, of ext w] obtain prev this1 w1 where
    prev: "accessor ext 15 this w = Inr (prev, this1, w1)"
    and ext1: "extends this w (Ver ` {..15}) this1 w1"
    and rg1: "registry w1 = registry w"
    and hit1: "?s < 15 \<longrightarrow> converted this1 (Ver 15) = Some prev"
    and nat1: "15 = ?s \<longrightarrow> prev = payload (metadata this)"
    and cs1: "cacheSound ext this \<longrightarrow> cacheSound ext this1 \<and> repr prev = ?v15"
    and lg1: "logExact this w \<longrightarrow> logExact this1 w1"
    and al1: "allocated this w \<longrightarrow> allocated this1 w1"
    by auto
  obtain out w2 where iv: "invoke ext Latest (toLatest ext) prev (version this1) w1 = (out, w2)"
    by (cases "invoke ext Latest (toLatest ext) prev (version this1) w1") auto
  let ?this2 = "this1\<lparr>converted := (converted this1)(Latest \<mapsto> out)\<rparr>"
  have acc: "asLatest ext this w = Inr (out, ?this2, w2)"
    unfolding asLatest_unfold None prev using iv by simp
  have md: "metadata this1 = metadata this"
    using ext1 by (simp add: extends_def)
  note v1 = same_metadata [OF md]
  have none1: "converted this1 Latest = None"
  proof (rule ccontr)
    assume "converted this1 Latest \<noteq> None"
    with ext1 None have "Latest \<in> Ver ` {..15}"
      unfolding extends_def by blast
    then show False by auto
  qed
  have ro: "repr out = produced (repr prev) (toLatest ext (repr prev) ?s)"
    using invoke_repr [OF iv] by (simp add: v1)
  have rg2: "registry w2 = applyAliases ext (repr prev) ?s (registry w)"
    using invoke_registry [OF iv] rg1 by (simp add: v1)
  have obj: "isObject this1 prev"
    using hit1 nat1 md le by (cases "?s < 15") (auto simp: isObject_def)
  have ck: "cacheKey this1 Latest"
    by (simp add: cacheKey_def)
  have pk: "version this1 < asPrev Latest \<longrightarrow> converted this1 (Ver (asPrev Latest)) \<noteq> None"
    using hit1 by (auto simp: v1 latest_15)
  have cs2: "cacheSound ext ?this2 \<and> repr out = expected ext this Latest"
    if "cacheSound ext this"
  proof -
    from that cs1 have a: "cacheSound ext this1" and b: "repr prev = ?v15" by simp_all
    have c: "repr out = expected ext this Latest"
      using ro b by (simp add: expected_def latest_15 Let_def)
    then have "repr out = expected ext this1 Latest"
      by (simp add: v1)
    from store_cacheSound [OF a ck this pk] c show ?thesis by simp
  qed
  have lg2: "logExact ?this2 w2" if "logExact this w"
    using store_logExact [OF _ none1 iv] lg1 that by simp
  have al2: "allocated ?this2 w2" if "allocated this w"
    using store_allocated [OF _ iv obj] al1 that by simp
  have as2: "aliased ext g0 ?this2 w2" if "cacheSound ext this" "aliased ext g0 this w" for g0
  proof -
    from that(2) None have "registry w = g0" by (simp add: aliased_def)
    moreover from that(1) cs1 have "repr prev = ?v15" by simp
    ultimately show ?thesis
      using rg2 by (simp add: aliased_def v1 latest_15)
  qed
  have ex2: "extends this w UNIV ?this2 w2"
    by (rule store_extends [OF ext1 None iv]) auto
  show ?thesis
    using acc cs2 lg2 al2 as2 ex2 by simp
qed

lemma cache_chain:
  assumes cs: "cacheSound ext this" and l: "converted this Latest \<noteq> None"
  shows "version this < 15 - d \<Longrightarrow> converted this (Ver (15 - d)) \<noteq> None"
proof (induction d)
  case 0
  from l obtain x where "converted this Latest = Some x" by auto
  with cs 0 show ?case
    unfolding cacheSound_def by (fastforce simp: latest_15)
next
  case (Suc d)
  show ?case
  proof (cases "d < 15")
    case True
    with Suc have "converted this (Ver (15 - d)) \<noteq> None" by simp
    then obtain x where "converted this (Ver (15 - d)) = Some x" by auto
    with cs have "version this < asPrev (Ver (15 - d)) \<longrightarrow>
        converted this (Ver (asPrev (Ver (15 - d)))) \<noteq> None"
      unfolding cacheSound_def by blast
    moreover have "15 - d - 1 = 15 - Suc d" by simp
    ultimately show ?thesis using Suc.prems by simp
  next
    case False
    with Suc.prems show ?thesis by simp
  qed
qed

lemma cache_complete:
  assumes "cacheSound ext this" "converted this Latest \<noteq> None"
    and "version this < m" "m \<le> 15"
  shows "converted this (Ver m) \<noteq> None"
  using cache_chain [OF assms(1,2), of "15 - m"] assms(3,4) by simp

section \<open>What every call leaves alone\<close>






section \<open>Invariants of a lifetime\<close>

lemma extends_mono: "extends this w K this' w' \<Longrightarrow> K \<subseteq> K' \<Longrightarrow> extends this w K' this' w'"
  unfolding extends_def by blast

lemma extends_trans:
  assumes "extends this w UNIV this1 w1" "extends this1 w1 UNIV this2 w2"
  shows "extends this w UNIV this2 w2"
proof -
  from assms obtain n1 n2 where "invoked w1 = invoked w @ n1" "invoked w2 = invoked w1 @ n2"
    unfolding extends_def by blast
  then have "invoked w2 = invoked w @ (n1 @ n2)" by simp
  then have "\<exists>new. invoked w2 = invoked w @ new" by blast
  with assms show ?thesis
    unfolding extends_def by auto
qed

lemma keeps_refl: "keeps ext this w this w"
  by (simp add: keeps_def extends_refl)

lemma keeps_trans:
  "keeps ext this w this1 w1 \<Longrightarrow> keeps ext this1 w1 this2 w2 \<Longrightarrow> keeps ext this w this2 w2"
  unfolding keeps_def using extends_trans by blast

lemma aliased_same:
  assumes "aliased ext g0 this w" "metadata this' = metadata this"
    and "converted this' Latest = converted this Latest" "registry w' = registry w"
  shows "aliased ext g0 this' w'"
  using assms(1,3,4) by (simp add: aliased_def same_metadata [OF assms(2)] split: option.split)

lemma accessor_keeps:
  assumes known: "knownVersion (version this)"
    and acc: "accessor ext n this w = Inr (x, this', w')"
  shows "keeps ext this w this' w'"
proof -
  have r: "version this \<le> n \<and> n \<le> 15"
  proof (rule ccontr)
    assume "\<not> (version this \<le> n \<and> n \<le> 15)"
    then consider "n < 9" | "15 < n" | "9 \<le> n" "n \<le> 15" "n < version this" by linarith
    then show False
    proof cases
      case 1
      with acc show False by (simp add: accessor_none)
    next
      case 2
      with acc show False by (simp add: accessor_none)
    next
      case 3
      then have "knownVersion n" by (simp add: known_iff)
      from accessor_downgrade [OF this 3(3), of ext w] acc show False by simp
    qed
  qed
  from accessor_ok_at [OF known, of n ext w] r acc have
    e: "extends this w (Ver ` {..n}) this' w'" and rg: "registry w' = registry w"
    and rest: "cacheSound ext this \<longrightarrow> cacheSound ext this'"
      "logExact this w \<longrightarrow> logExact this' w'" "allocated this w \<longrightarrow> allocated this' w'"
    by auto
  have "converted this' Latest = converted this Latest"
  proof (cases "converted this Latest")
    case None
    have "converted this' Latest = None"
    proof (rule ccontr)
      assume "converted this' Latest \<noteq> None"
      with e None have "Latest \<in> Ver ` {..n}" unfolding extends_def by blast
      then show False by auto
    qed
    with None show ?thesis by simp
  next
    case (Some y)
    with e show ?thesis unfolding extends_def by simp
  qed
  with e rg have "aliased ext g0 this w \<Longrightarrow> aliased ext g0 this' w'" for g0
    by (auto intro: aliased_same simp: extends_def)
  with e rest show ?thesis
    unfolding keeps_def by (auto intro: extends_mono)
qed

lemma asLatest_keeps:
  assumes known: "knownVersion (version this)"
    and acc: "asLatest ext this w = Inr (x, this', w')"
  shows "keeps ext this w this' w'"
  using asLatest_ok [OF known, of ext w] acc unfolding keeps_def by auto

lemma bump_keeps:
  "keeps ext this w this (w\<lparr>nextRef := nextRef w + 1\<rparr>)"
  unfolding keeps_def extends_def logExact_def allocated_def aliased_def
  by (auto simp: less_Suc_eq)

lemma perform_keeps:
  assumes known: "knownVersion (version this)"
    and p: "perform ext c (this, w) = (this', w')"
  shows "keeps ext this w this' w'"
proof (cases c)
  case (AsV n)
  with p show ?thesis
    by (auto simp: keeps_refl split: sum.splits dest: accessor_keeps [OF known])
next
  case AsLatest
  with p show ?thesis
    by (auto simp: keeps_refl split: sum.splits dest: asLatest_keeps [OF known])
next
  case AsCallsOnly
  show ?thesis
  proof (cases "asLatest ext this w")
    case (Inl e)
    with p AsCallsOnly show ?thesis
      by (simp add: asCallsOnly_def keeps_refl)
  next
    case (Inr r)
    then obtain x this1 w1 where a: "asLatest ext this w = Inr (x, this1, w1)"
      by (cases r) auto
    with p AsCallsOnly have "this' = this1" "w' = w1\<lparr>nextRef := nextRef w1 + 1\<rparr>"
      by (simp_all add: asCallsOnly_def createMetadataAll_def)
    with asLatest_keeps [OF known a] bump_keeps [of ext this1 w1] show ?thesis
      by (auto intro: keeps_trans)
  qed
next
  case (GetUniqTypes b)
  with p show ?thesis
    by (auto simp: getUniqTypes_def keeps_refl split: sum.splits dest: asLatest_keeps [OF known])
next
  case ToJSON
  with p show ?thesis
    by (auto simp: toJSON_def keeps_refl split: sum.splits dest: asLatest_keeps [OF known])
qed

lemma run_keeps:
  "knownVersion (version this) \<Longrightarrow> run ext cs (this, w) = (this', w') \<Longrightarrow>
     keeps ext this w this' w'"
proof (induction cs arbitrary: this w)
  case Nil
  then show ?case by (simp add: keeps_refl)
next
  case (Cons c cs)
  obtain this1 w1 where p: "perform ext c (this, w) = (this1, w1)"
    by (cases "perform ext c (this, w)") auto
  from perform_keeps [OF Cons.prems(1) p] have k1: "keeps ext this w this1 w1" .
  then have "metadata this1 = metadata this"
    by (simp add: keeps_def extends_def)
  then have "knownVersion (version this1)"
    using Cons.prems(1) by (simp add: version_def)
  moreover from Cons.prems(2) have "run ext cs (this1, w1) = (this', w')"
    by (simp add: p)
  ultimately have "keeps ext this1 w1 this' w'" by (rule Cons.IH)
  with k1 show ?case by (rule keeps_trans)
qed

lemma construct_simps [simp]:
  "metadata (construct magic md) = md"
  "magicNumber (construct magic md) = magic"
  "converted (construct magic md) = Map.empty"
  "version (construct magic md) = index md"
  "native (construct magic md) = repr (payload md)"
  by (simp_all add: construct_def version_def native_def)

lemma construct_cacheSound: "cacheSound ext (construct magic md)"
  by (simp add: cacheSound_def)

lemma construct_logExact: "invoked w = [] \<Longrightarrow> logExact (construct magic md) w"
  by (simp add: logExact_def)

lemma construct_allocated: "ref (payload md) < nextRef w \<Longrightarrow> allocated (construct magic md) w"
  by (simp add: allocated_def isObject_def)

lemma construct_aliased: "aliased ext (registry w) (construct magic md) w"
  by (simp add: aliased_def)

lemma reached:
  assumes "knownVersion (index md)" "run ext cs (construct magic md, w0) = (this, w)"
  shows "metadata this = md" "magicNumber this = magic" "version this = index md"
    "native this = repr (payload md)" "cacheSound ext this"
    "invoked w0 = [] \<Longrightarrow> logExact this w"
    "ref (payload md) < nextRef w0 \<Longrightarrow> allocated this w"
    "aliased ext (registry w0) this w"
proof -
  have "keeps ext (construct magic md) w0 this w"
    by (rule run_keeps [OF _ assms(2)]) (simp add: assms(1))
  then show "metadata this = md" "magicNumber this = magic" "cacheSound ext this"
    "invoked w0 = [] \<Longrightarrow> logExact this w"
    "ref (payload md) < nextRef w0 \<Longrightarrow> allocated this w"
    "aliased ext (registry w0) this w"
    by (simp_all add: keeps_def extends_def construct_cacheSound construct_logExact
        construct_allocated construct_aliased)
  then show "version this = index md" "native this = repr (payload md)"
    by (simp_all add: version_def native_def)
qed

section \<open>Evaluating the concrete instance\<close>

lemma demo_steps:
  "toV10 demoExt = (\<lambda>x mv. Built (x @ [10, mv]))" "toV11 demoExt = (\<lambda>x mv. Built (x @ [11, mv]))"
  "toV12 demoExt = (\<lambda>x mv. Built (x @ [12, mv]))" "toV13 demoExt = (\<lambda>x mv. Built (x @ [13, mv]))"
  "toV14 demoExt = (\<lambda>x mv. Built (x @ [14, mv]))" "toV15 demoExt = (\<lambda>x mv. Built (x @ [15, mv]))"
  "toLatest demoExt = toLatest_spec" "toCallsOnly demoExt = take 1"
  "applyAliases demoExt = (\<lambda>x mv g. True)"
  "resolves demoExt = (\<lambda>n. n = ''Vec'')"
  "typeRefs demoExt = (\<lambda>x. [TypeExpr ''Vec'' [TypeExpr ''Foo'' []], TypeExpr ''Vec'' []])"
  "superToJSON demoExt = (\<lambda>g magic md. (g, magic + index md))"
  by (simp_all add: demoExt_def)

lemma demoRecord_fields:
  "metadata (demoRecord s) = \<lparr>index = s, payload = \<lparr>ref = 0, repr = [s]\<rparr>\<rparr>"
  "magicNumber (demoRecord s) = 1635018093"
  "converted (demoRecord s) = Map.empty"
  "version (demoRecord s) = s"
  by (simp_all add: demoRecord_def)

lemma upgradeSteps_numeral:
  "0 < k \<Longrightarrow> upgradeSteps ext s k x = stepInto ext (s + k) (upgradeSteps ext s (k - 1) x) s"
  by (cases k) simp_all

lemmas demo_eval =
  demo_steps demoRecord_fields accessor.simps getVersion.simps asV9_def assertVersion_def
  asVariant_def invoke_def asLatest_def LATEST_VERSION_def KNOWN_VERSIONS_def
  knownVersion_def stepInto_def stepFor_def toLatest_spec_def demoWorld_def Let_def
  upgradeSteps_numeral

text \<open>
  Claim C1 (chain completeness). Take a record constructed at a known intrinsic version
  \<open>s\<close>, in any state a sequence of public calls has brought it to, and a version \<open>v\<close> with
  \<open>s \<le> v \<le> latest\<close>. The accessor for \<open>v\<close> succeeds, and the structure it returns is that of
  applying the \<open>v - s\<close> adjacent steps in ascending order to the native payload. When
  \<open>v = s\<close> it returns the payload object itself and leaves record, cache and world as they
  were.
\<close>

theorem asVersion_chain_complete:
  assumes "knownVersion (index md)"
    and "run ext cs (construct magic md, w0) = (this, w)"
    and "index md \<le> v" and "v \<le> LATEST_VERSION"
  shows "version this = index md \<and>
     (\<exists>x this' w'. accessor ext v this w = Inr (x, this', w') \<and>
        repr x = upgradeSteps ext (index md) (v - index md) (repr (payload md)) \<and>
        (v = index md \<longrightarrow> x = payload md \<and> this' = this \<and> w' = w))"
proof -
  note r = reached [OF assms(1,2)]
  have k: "knownVersion (version this)" "version this \<le> v" "v \<le> 15"
    using assms r(3) by (simp_all add: latest_15)
  from accessor_ok_at [OF k, of ext w] r show ?thesis
    by auto
qed

theorem asVersion_chain_complete_witness:
  "knownVersion 13 \<and> run demoExt [AsV 14] (demoRecord 13, demoWorld) \<noteq> (demoRecord 13, demoWorld) \<and>
   (\<exists>x this' w'.
      accessor demoExt 15 (fst (run demoExt [AsV 14] (demoRecord 13, demoWorld)))
        (snd (run demoExt [AsV 14] (demoRecord 13, demoWorld))) = Inr (x, this', w') \<and>
      repr x = [13, 14, 13, 15, 13])"
proof -
  let ?md = "\<lparr>index = 13, payload = \<lparr>ref = 0, repr = [13::nat]\<rparr>\<rparr>"
  let ?st = "run demoExt [AsV 14] (demoRecord 13, demoWorld)"
  have h1: "knownVersion (index ?md)"
    by (simp add: knownVersion_def KNOWN_VERSIONS_def)
  have h2: "run demoExt [AsV 14] (construct 1635018093 ?md, demoWorld) = (fst ?st, snd ?st)"
    by (simp add: demoRecord_def)
  have h3: "index ?md \<le> 15" "15 \<le> LATEST_VERSION"
    by (simp_all add: latest_15)
  have ne: "?st \<noteq> (demoRecord 13, demoWorld)"
    by (simp add: demo_eval)
  from asVersion_chain_complete [OF h1 h2 h3] h1 ne show ?thesis
    by (simp add: demo_eval)
qed


section \<open>Downgrades\<close>

lemma no_downgrade_error:
  "9 + k \<le> 15 \<Longrightarrow> version this \<le> 9 + k \<Longrightarrow>
     accessor ext (9 + k) this w \<noteq> Inl (CannotConvert a b)"
proof (induction k)
  case 0
  then show ?case
    by (simp add: accessor_9 asV9_def assertVersion_def asVariant_def)
next
  case (Suc k)
  let ?n = "9 + Suc k"
  have r: "10 \<le> ?n" "?n \<le> 15" using Suc.prems by simp_all
  show ?case
  proof (cases "version this = ?n")
    case True
    then have "knownVersion (version this)" using r by (simp add: known_iff)
    from accessor_native [OF this, of ext w] True show ?thesis by simp
  next
    case False
    with Suc.prems have lt: "version this < ?n" by simp
    then have "accessor ext (9 + k) this w \<noteq> Inl (CannotConvert a b)"
      using Suc by simp
    then show ?thesis
      unfolding accessor_upgrade [OF r lt]
      by (auto split: option.splits sum.splits prod.splits)
  qed
qed

text \<open>
  Claim C2 (monotonicity). For a known version \<open>v\<close> below the record's intrinsic version
  \<open>s\<close>, the accessor for \<open>v\<close> fails with the error that names \<open>s\<close> and \<open>v\<close>, whatever the cache
  holds; for \<open>v\<close> at or above \<open>s\<close> it never fails with that error.
\<close>

theorem asVersion_rejects_downgrade:
  assumes "knownVersion v"
  shows "(v < version this \<longrightarrow> accessor ext v this w = Inl (CannotConvert (version this) v)) \<and>
     (version this \<le> v \<longrightarrow> (\<forall>a b. accessor ext v this w \<noteq> Inl (CannotConvert a b)))"
proof -
  from assms obtain k where k: "v = 9 + k" "9 + k \<le> 15"
    using le_Suc_ex by (auto simp: known_iff)
  show ?thesis
    using accessor_downgrade [OF assms, of this ext w] no_downgrade_error [OF k(2), of this ext w]
    by (simp add: k(1))
qed

theorem asVersion_rejects_downgrade_witness:
  "knownVersion 10 \<and> knownVersion 12 \<and>
   accessor demoExt 10 (demoRecord 12) demoWorld = Inl (CannotConvert 12 10) \<and>
   accessor demoExt 10
     ((demoRecord 12)\<lparr>converted := [Ver 10 \<mapsto> \<lparr>ref = 5, repr = [1]\<rparr>]\<rparr>) demoWorld =
     Inl (CannotConvert 12 10) \<and>
   (\<forall>a b. accessor demoExt 12 (demoRecord 10) demoWorld \<noteq> Inl (CannotConvert a b))"
proof -
  have h: "knownVersion 10" "knownVersion 12"
    by (simp_all add: knownVersion_def KNOWN_VERSIONS_def)
  from asVersion_rejects_downgrade [OF h(1), of "demoRecord 12" demoExt demoWorld]
    asVersion_rejects_downgrade [OF h(1), of "(demoRecord 12)\<lparr>converted := [Ver 10 \<mapsto> \<lparr>ref = 5, repr = [1]\<rparr>]\<rparr>"
      demoExt demoWorld]
    asVersion_rejects_downgrade [OF h(2), of "demoRecord 10" demoExt demoWorld] h
  show ?thesis
    by (simp add: demoRecord_fields)
qed

section \<open>The latest representation\<close>

lemma asV15_accessor: "asV15 ext this w = accessor ext 15 this w"
  by (simp add: asV15_def accessor.simps)

lemma getters_accessor:
  "asV10 ext this w = accessor ext 10 this w" "asV11 ext this w = accessor ext 11 this w"
  "asV12 ext this w = accessor ext 12 this w" "asV13 ext this w = accessor ext 13 this w"
  "asV14 ext this w = accessor ext 14 this w"
  by (simp_all add: asV10_def asV11_def asV12_def asV13_def asV14_def accessor.simps)

lemma asLatest_is_step:
  assumes "knownVersion (version this)" "cacheSound ext this"
  shows "\<exists>x this1 w1 y this2 w2.
     asLatest ext this w = Inr (x, this1, w1) \<and> asV15 ext this w = Inr (y, this2, w2) \<and>
     repr x = produced (repr y) (toLatest ext (repr y) (version this))"
proof -
  from assms(1) have le: "version this \<le> 15" by (simp add: known_iff)
  from accessor_ok_at [OF assms(1) le order_refl, of ext w] assms(2)
  obtain y this2 w2 where "accessor ext 15 this w = Inr (y, this2, w2)"
    "repr y = upgradeSteps ext (version this) (15 - version this) (native this)"
    by auto
  moreover from asLatest_ok [OF assms(1), of ext w] assms(2)
  obtain x this1 w1 where "asLatest ext this w = Inr (x, this1, w1)"
    "repr x = expected ext this Latest"
    by auto
  ultimately show ?thesis
    by (simp add: asV15_accessor expected_def latest_15 Let_def)
qed

text \<open>
  Claim C3 (latest stability). With the step into the latest representation as the spec
  has it, \<open>asLatest\<close> and \<open>asV15\<close> both succeed on every record of known intrinsic version
  and return structurally equal representations. (On any step, the structure of the
  former is what that step gives on the structure of the latter: \<open>asLatest_is_step\<close>.)
\<close>

theorem asLatest_equals_asV15:
  assumes "toLatest ext = toLatest_spec"
    and "knownVersion (index md)"
    and "run ext cs (construct magic md, w0) = (this, w)"
  shows "\<exists>x this1 w1 y this2 w2.
     asLatest ext this w = Inr (x, this1, w1) \<and> asV15 ext this w = Inr (y, this2, w2) \<and>
     repr x = repr y"
proof -
  note r = reached [OF assms(2,3)]
  have "knownVersion (version this)" using assms(2) r(3) by simp
  from asLatest_is_step [OF this r(5), of w] show ?thesis
    by (simp add: assms(1) toLatest_spec_def)
qed

theorem asLatest_equals_asV15_witness:
  "toLatest demoExt = toLatest_spec \<and> knownVersion 14 \<and>
   (\<exists>x this1 w1 y this2 w2.
      asLatest demoExt (demoRecord 14) demoWorld = Inr (x, this1, w1) \<and>
      asV15 demoExt (demoRecord 14) demoWorld = Inr (y, this2, w2) \<and>
      repr x = [14, 15, 14] \<and> repr y = [14, 15, 14])"
proof -
  let ?md = "\<lparr>index = 14, payload = \<lparr>ref = 0, repr = [14::nat]\<rparr>\<rparr>"
  have h1: "toLatest demoExt = toLatest_spec" by (simp add: demo_steps)
  have h2: "knownVersion (index ?md)"
    by (simp add: knownVersion_def KNOWN_VERSIONS_def)
  have h3: "run demoExt [] (construct 1635018093 ?md, demoWorld) = (demoRecord 14, demoWorld)"
    by (simp add: demoRecord_def)
  from asLatest_equals_asV15 [OF h1 h2 h3] h1 h2 show ?thesis
    by (simp add: demo_eval asV15_def)
qed


section \<open>Memoization\<close>

lemma cached_forever:
  assumes known: "knownVersion (version this1)" and lg: "logExact this1 w1"
    and hit: "converted this1 key = Some x"
    and run: "run ext cs (this1, w1) = (this2, w2)"
  shows "converted this2 key = Some x \<and> version this2 = version this1 \<and>
     distinct (map target (invoked w2))"
proof -
  from run_keeps [OF known run] have k: "keeps ext this1 w1 this2 w2" .
  with lg have "logExact this2 w2" by (simp add: keeps_def)
  then have "distinct (map target (invoked w2))" by (simp add: logExact_def)
  moreover from k hit have "converted this2 key = Some x"
    unfolding keeps_def extends_def by blast
  moreover from k have "version this2 = version this1"
    by (simp add: keeps_def extends_def version_def)
  ultimately show ?thesis by simp
qed

text \<open>
  Claim C4 (memoised upgrades). For a record of known intrinsic version \<open>s\<close>, in any state of
  its life: for every target \<open>v > s\<close> the accessor returns an object that every later call
  of the same accessor returns again, identity included, whatever public calls come in
  between, without changing record or world; the same holds of \<open>asLatest\<close>, at every
  intrinsic version; and at no time does the log hold two invocations for one cache key.
\<close>

theorem accessor_memoized:
  assumes "knownVersion (index md)" and "invoked w0 = []"
    and "run ext cs (construct magic md, w0) = (this, w)"
  shows "(\<forall>v. index md < v \<and> v \<le> LATEST_VERSION \<longrightarrow>
        (\<exists>x this1 w1. accessor ext v this w = Inr (x, this1, w1) \<and>
           (\<forall>cs' this2 w2. run ext cs' (this1, w1) = (this2, w2) \<longrightarrow>
              accessor ext v this2 w2 = Inr (x, this2, w2) \<and>
              distinct (map target (invoked w2))))) \<and>
     (\<exists>x this1 w1. asLatest ext this w = Inr (x, this1, w1) \<and>
        (\<forall>cs' this2 w2. run ext cs' (this1, w1) = (this2, w2) \<longrightarrow>
           asLatest ext this2 w2 = Inr (x, this2, w2) \<and>
           distinct (map target (invoked w2))))"
proof -
  note r = reached [OF assms(1,3)]
  have known: "knownVersion (version this)" using assms(1) r(3) by simp
  have lg: "logExact this w" using r(6) assms(2) by simp
  have first: "\<exists>x this1 w1. accessor ext v this w = Inr (x, this1, w1) \<and>
        (\<forall>cs' this2 w2. run ext cs' (this1, w1) = (this2, w2) \<longrightarrow>
           accessor ext v this2 w2 = Inr (x, this2, w2) \<and>
           distinct (map target (invoked w2)))"
    if vv: "index md < v \<and> v \<le> LATEST_VERSION" for v
  proof -
    have v: "version this < v" "v \<le> 15" "10 \<le> v"
      using assms(1) vv r(3) by (simp_all add: latest_15 known_iff)
    from accessor_ok_at [OF known, of v ext w] v lg
    obtain x this1 w1 where a: "accessor ext v this w = Inr (x, this1, w1)"
      and e: "extends this w (Ver ` {..v}) this1 w1"
      and h: "converted this1 (Ver v) = Some x" and lg1: "logExact this1 w1"
      by auto
    from e have v1: "version this1 = version this"
      by (simp add: extends_def version_def)
    have "accessor ext v this2 w2 = Inr (x, this2, w2) \<and> distinct (map target (invoked w2))"
      if run: "run ext cs' (this1, w1) = (this2, w2)" for cs' this2 w2
    proof -
      from cached_forever [OF _ lg1 h run] known v1
      have c: "converted this2 (Ver v) = Some x" "version this2 = version this"
        "distinct (map target (invoked w2))" by simp_all
      from c(2) v(1) have "version this2 < v" by simp
      from accessor_upgrade [OF v(3) v(2) this, of ext w2] c show ?thesis by simp
    qed
    with a show ?thesis by blast
  qed
  from asLatest_ok [OF known, of ext w] lg
  obtain y this3 w3 where b: "asLatest ext this w = Inr (y, this3, w3)"
    and e3: "extends this w UNIV this3 w3"
    and h3: "converted this3 Latest = Some y" and lg3: "logExact this3 w3"
    by auto
  from e3 have v3: "version this3 = version this"
    by (simp add: extends_def version_def)
  have "asLatest ext this2 w2 = Inr (y, this2, w2) \<and> distinct (map target (invoked w2))"
    if run: "run ext cs' (this3, w3) = (this2, w2)" for cs' this2 w2
  proof -
    from cached_forever [OF _ lg3 h3 run] known v3
    have c: "converted this2 Latest = Some y" "distinct (map target (invoked w2))"
      by simp_all
    then show ?thesis by (simp add: asLatest_unfold)
  qed
  with b have "\<exists>x this1 w1. asLatest ext this w = Inr (x, this1, w1) \<and>
        (\<forall>cs' this2 w2. run ext cs' (this1, w1) = (this2, w2) \<longrightarrow>
           asLatest ext this2 w2 = Inr (x, this2, w2) \<and>
           distinct (map target (invoked w2)))"
    by blast
  with first show ?thesis by blast
qed

theorem accessor_memoized_witness:
  "knownVersion 13 \<and> knownVersion 15 \<and> invoked demoWorld = [] \<and>
   (\<exists>x this1 w1. accessor demoExt 15 (demoRecord 13) demoWorld = Inr (x, this1, w1) \<and>
      x = \<lparr>ref = 2, repr = [13, 14, 13, 15, 13]\<rparr> \<and>
      accessor demoExt 15 this1 w1 = Inr (x, this1, w1) \<and>
      map target (invoked w1) = [Ver 14, Ver 15]) \<and>
   (\<exists>x this1 w1. asLatest demoExt (demoRecord 13) demoWorld = Inr (x, this1, w1) \<and>
      x = \<lparr>ref = 2, repr = [13, 14, 13, 15, 13]\<rparr> \<and>
      asLatest demoExt this1 w1 = Inr (x, this1, w1) \<and>
      map target (invoked w1) = [Ver 14, Ver 15, Latest]) \<and>
   (\<exists>x this1 w1. asLatest demoExt (demoRecord 15) demoWorld = Inr (x, this1, w1) \<and>
      x = \<lparr>ref = 0, repr = [15]\<rparr> \<and>
      asLatest demoExt this1 w1 = Inr (x, this1, w1) \<and>
      map target (invoked w1) = [Latest])"
proof -
  let ?md = "\<lambda>s. \<lparr>index = s, payload = \<lparr>ref = 0, repr = [s::nat]\<rparr>\<rparr>"
  have h1: "knownVersion (index (?md 13))" "knownVersion (index (?md 15))"
    by (simp_all add: knownVersion_def KNOWN_VERSIONS_def)
  have h2: "invoked demoWorld = []" by (simp add: demoWorld_def)
  have h3: "run demoExt [] (construct 1635018093 (?md s), demoWorld) = (demoRecord s, demoWorld)"
    for s by (simp add: demoRecord_def)
  from accessor_memoized [OF h1(1) h2 h3] accessor_memoized [OF h1(2) h2 h3] h1 h2
  show ?thesis
    by (simp add: demo_eval)
qed

section \<open>The context argument\<close>

text \<open>
  Claim C5 (context argument). Every upgrade step invoked over the life of a record was
  given the record's intrinsic version as \<open>metaVersion\<close>. The instance below is the record at
  version 9: \<open>asLatest\<close> invokes the six steps 9 to 15 and the step into latest, each with 9.
\<close>

theorem steps_given_intrinsic_version:
  assumes "knownVersion (index md)" and "invoked w0 = []"
    and "run ext cs (construct magic md, w0) = (this, w)"
  shows "\<forall>i \<in> set (invoked w). metaVersion i = index md"
  using reached(3,6) [OF assms(1,3)] assms(2) by (simp add: logExact_def)

theorem steps_given_intrinsic_version_witness:
  "knownVersion 9 \<and> invoked demoWorld = [] \<and>
   map (\<lambda>i. (target i, metaVersion i))
     (invoked (snd (run demoExt [AsLatest] (demoRecord 9, demoWorld)))) =
     [(Ver 10, 9), (Ver 11, 9), (Ver 12, 9), (Ver 13, 9), (Ver 14, 9), (Ver 15, 9), (Latest, 9)] \<and>
   list_all (\<lambda>i. metaVersion i = 9)
     (invoked (snd (run demoExt [AsLatest] (demoRecord 9, demoWorld))))"
proof -
  let ?md = "\<lparr>index = 9, payload = \<lparr>ref = 0, repr = [9::nat]\<rparr>\<rparr>"
  let ?st = "run demoExt [AsLatest] (demoRecord 9, demoWorld)"
  have h1: "knownVersion (index ?md)"
    by (simp add: knownVersion_def KNOWN_VERSIONS_def)
  have h2: "invoked demoWorld = []" by (simp add: demoWorld_def)
  have h3: "run demoExt [AsLatest] (construct 1635018093 ?md, demoWorld) = (fst ?st, snd ?st)"
    by (simp add: demoRecord_def)
  have e: "map (\<lambda>i. (target i, metaVersion i)) (invoked (snd ?st)) =
     [(Ver 10, 9), (Ver 11, 9), (Ver 12, 9), (Ver 13, 9), (Ver 14, 9), (Ver 15, 9), (Latest, 9)]"
    by (simp add: demo_eval)
  from steps_given_intrinsic_version [OF h1 h2 h3] h1 h2 e show ?thesis
    by (simp add: list_all_iff)
qed

section \<open>The calls-only record\<close>

text \<open>
  Claim C6 (calls-only compatibility). On every record of known intrinsic version,
  whatever that version and whatever the cache holds, \<open>asCallsOnly\<close> returns a new record
  tagged with the pinned version 14, which is not the latest version 15, with the source's
  magic number and an empty cache of its own; and \<open>asLatest\<close> on the new record succeeds.
\<close>

theorem asCallsOnly_pinned:
  assumes "knownVersion (version this)"
  shows "\<exists>new this' w'. asCallsOnly ext this w = Inr (new, this', w') \<and>
     version new = TO_CALLS_VERSION \<and> TO_CALLS_VERSION = 14 \<and>
     version new \<noteq> LATEST_VERSION \<and> converted new = Map.empty \<and>
     magicNumber new = magicNumber this \<and>
     (cacheSound ext this \<longrightarrow> native new = toCallsOnly ext (expected ext this Latest)) \<and>
     (\<exists>x new' w''. asLatest ext new w' = Inr (x, new', w''))"
proof -
  from asLatest_ok [OF assms, of ext w] obtain latest this' w1 where
    a: "asLatest ext this w = Inr (latest, this', w1)"
    and c: "cacheSound ext this \<longrightarrow> repr latest = expected ext this Latest"
    by auto
  let ?md = "\<lparr>index = TO_CALLS_VERSION,
      payload = \<lparr>ref = nextRef w1, repr = toCallsOnly ext (repr latest)\<rparr>\<rparr>"
  let ?new = "construct (magicNumber this) ?md"
  let ?w' = "w1\<lparr>nextRef := nextRef w1 + 1\<rparr>"
  have r: "asCallsOnly ext this w = Inr (?new, this', ?w')"
    by (simp add: asCallsOnly_def a createMetadataAll_def)
  have "knownVersion (version ?new)"
    by (simp add: TO_CALLS_VERSION_def known_iff)
  from asLatest_ok [OF this, of ext ?w'] obtain x new' w'' where
    "asLatest ext ?new ?w' = Inr (x, new', w'')" by auto
  with r c show ?thesis
    by (simp add: TO_CALLS_VERSION_def latest_15)
qed

theorem asCallsOnly_pinned_witness:
  "knownVersion 9 \<and> knownVersion 15 \<and>
   (\<exists>new this' w'. asCallsOnly demoExt (demoRecord 9) demoWorld = Inr (new, this', w') \<and>
      version new = 14 \<and> native new = [9] \<and>
      (\<exists>x new' w''. asLatest demoExt new w' = Inr (x, new', w'') \<and> repr x = [9, 15, 14])) \<and>
   (\<exists>new this' w'. asCallsOnly demoExt (demoRecord 15) demoWorld = Inr (new, this', w') \<and>
      version new = 14 \<and> native new = [15] \<and>
      (\<exists>x new' w''. asLatest demoExt new w' = Inr (x, new', w'') \<and> repr x = [15, 15, 14]))"
proof -
  have h: "knownVersion (version (demoRecord 9))" "knownVersion (version (demoRecord 15))"
    by (simp_all add: knownVersion_def KNOWN_VERSIONS_def demoRecord_fields)
  from asCallsOnly_pinned [OF h(1), of demoExt demoWorld]
    asCallsOnly_pinned [OF h(2), of demoExt demoWorld] h
  show ?thesis
    by (simp add: demo_eval asCallsOnly_def createMetadataAll_def TO_CALLS_VERSION_def
        construct_def version_def native_def)
qed

section \<open>The JSON projection\<close>

text \<open>
  Claim C7 (JSON projection). On a record of known intrinsic version, in any state of its
  life, \<open>toJSON\<close> first resolves \<open>asLatest\<close>, so that the latest representation is in the
  cache under the sentinel and the registry is the one the record was constructed under
  with the alias normalisation of the step into latest applied; what it returns is the
  container's serialisation of the wrapped fields under that normalised registry,
  whatever the intrinsic version.
\<close>

theorem toJSON_resolves_asLatest:
  assumes "knownVersion (index md)"
    and "run ext cs (construct magic md, w0) = (this, w)"
  shows "\<exists>latest this' w'. asLatest ext this w = Inr (latest, this', w') \<and>
     converted this' Latest = Some latest \<and>
     repr latest = expected ext this Latest \<and>
     registry w' =
       applyAliases ext
         (upgradeSteps ext (index md) (LATEST_VERSION - index md) (repr (payload md)))
         (index md) (registry w0) \<and>
     toJSON ext this w = Inr (superToJSON ext (registry w') magic md, this', w')"
proof -
  note r = reached [OF assms]
  have known: "knownVersion (version this)" using assms(1) r(3) by simp
  from asLatest_ok [OF known, of ext w] r(5) r(8) obtain latest this' w' where
    a: "asLatest ext this w = Inr (latest, this', w')"
    and e: "extends this w UNIV this' w'"
    and h: "converted this' Latest = Some latest"
    and c: "repr latest = expected ext this Latest"
    and al: "aliased ext (registry w0) this' w'"
    by auto
  from e r have f: "metadata this' = md" "magicNumber this' = magic"
    by (simp_all add: extends_def)
  then have "version this' = index md" "native this' = repr (payload md)"
    by (simp_all add: version_def native_def)
  with al h have "registry w' =
       applyAliases ext
         (upgradeSteps ext (index md) (LATEST_VERSION - index md) (repr (payload md)))
         (index md) (registry w0)"
    by (simp add: aliased_def)
  with a h c f show ?thesis
    by (simp add: toJSON_def)
qed

theorem toJSON_resolves_asLatest_witness:
  "knownVersion 14 \<and> registry demoWorld = False \<and>
   superToJSON demoExt (registry demoWorld) (magicNumber (demoRecord 14)) (metadata (demoRecord 14))
     = (False, 1635018107) \<and>
   (\<exists>this' w'. toJSON demoExt (demoRecord 14) demoWorld = Inr ((True, 1635018107), this', w') \<and>
      registry w' = True \<and>
      converted this' Latest = Some \<lparr>ref = 1, repr = [14, 15, 14]\<rparr> \<and>
      asLatest demoExt (demoRecord 14) demoWorld =
        Inr (\<lparr>ref = 1, repr = [14, 15, 14]\<rparr>, this', w'))"
proof -
  let ?md = "\<lparr>index = 14, payload = \<lparr>ref = 0, repr = [14::nat]\<rparr>\<rparr>"
  have h1: "knownVersion (index ?md)"
    by (simp add: knownVersion_def KNOWN_VERSIONS_def)
  have h2: "run demoExt [] (construct 1635018093 ?md, demoWorld) = (demoRecord 14, demoWorld)"
    by (simp add: demoRecord_def)
  from toJSON_resolves_asLatest [OF h1 h2] h1 show ?thesis
    by (simp add: demo_eval toJSON_def)
qed

section \<open>The walk over type references\<close>

lemma walk_error:
  "walk res thr t seen = Inl e \<Longrightarrow> thr \<and> (\<exists>n \<in> idents t. \<not> res n \<and> e = UnresolvedType n)"
  "walkAll res thr ts seen = Inl e \<Longrightarrow>
     thr \<and> (\<exists>n \<in> \<Union> (idents ` set ts). \<not> res n \<and> e = UnresolvedType n)"
proof (induction res thr t seen and res thr ts seen rule: walk_walkAll.induct)
  case (1 res throwError name args seen)
  then show ?case by (auto split: if_splits)
next
  case (2 res throwError seen)
  then show ?case by simp
next
  case (3 res throwError t ts seen)
  then show ?case by (auto split: sum.splits)
qed

lemma walk_collects:
  "walk res thr t seen = Inr ids \<Longrightarrow>
     set ids = set seen \<union> idents t \<and> (distinct seen \<longrightarrow> distinct ids) \<and>
     (thr \<longrightarrow> (\<forall>n \<in> idents t. res n))"
  "walkAll res thr ts seen = Inr ids \<Longrightarrow>
     set ids = set seen \<union> \<Union> (idents ` set ts) \<and> (distinct seen \<longrightarrow> distinct ids) \<and>
     (thr \<longrightarrow> (\<forall>n \<in> \<Union> (idents ` set ts). res n))"
proof (induction res thr t seen and res thr ts seen arbitrary: ids and ids
    rule: walk_walkAll.induct)
  case (1 res throwError name args seen)
  from "1.prems" have c: "\<not> (\<not> res name \<and> throwError)"
    and w: "walkAll res throwError args (List.insert name seen) = Inr ids"
    by (auto split: if_splits)
  from "1.IH" [OF c w] c show ?case
    by (auto simp: distinct_insert)
next
  case (2 res throwError seen)
  then show ?case by simp
next
  case (3 res throwError t ts seen)
  from "3.prems" obtain seen' where a: "walk res throwError t seen = Inr seen'"
    and b: "walkAll res throwError ts seen' = Inr ids"
    by (auto split: sum.splits)
  from "3.IH"(1) [OF a] "3.IH"(2) [OF a b] show ?case
    by auto
qed

lemma walkAll_lenient:
  "\<exists>ids. walkAll res False ts seen = Inr ids"
proof (cases "walkAll res False ts seen")
  case (Inl e)
  from walk_error(2) [OF this] show ?thesis by simp
next
  case (Inr ids)
  then show ?thesis by simp
qed

lemma util_lenient:
  "\<exists>ids. util_getUniqTypes ext latest False = Inr ids \<and> distinct ids \<and>
     set ids = \<Union> (idents ` set (typeRefs ext latest))"
proof -
  from walkAll_lenient obtain ids where
    w: "walkAll (resolves ext) False (typeRefs ext latest) [] = Inr ids" by blast
  from walk_collects(2) [OF w] w show ?thesis
    by (simp add: util_getUniqTypes_def)
qed

lemma util_strict:
  assumes "n \<in> \<Union> (idents ` set (typeRefs ext latest))" "\<not> resolves ext n"
  shows "\<exists>m \<in> \<Union> (idents ` set (typeRefs ext latest)).
     \<not> resolves ext m \<and> util_getUniqTypes ext latest True = Inl (UnresolvedType m)"
proof (cases "walkAll (resolves ext) True (typeRefs ext latest) []")
  case (Inl e)
  from walk_error(2) [OF this] Inl show ?thesis
    by (auto simp: util_getUniqTypes_def)
next
  case (Inr ids)
  from walk_collects(2) [OF this] assms show ?thesis by blast
qed

text \<open>
  Claim C8 (unresolved type identifiers). \<open>getUniqTypes\<close> hands the helper the record's
  latest representation. When an identifier among its type references does not resolve,
  the strict call fails with the error carrying an unresolved identifier of that
  representation, and the lenient call returns all the identifiers, that one included.
\<close>

theorem getUniqTypes_unresolved:
  assumes "knownVersion (version this)"
  shows "\<exists>latest this' w'. asLatest ext this w = Inr (latest, this', w') \<and>
     (\<forall>throwError. getUniqTypes ext throwError this w =
        (util_getUniqTypes ext (repr latest) throwError, this', w')) \<and>
     (cacheSound ext this \<longrightarrow> repr latest = expected ext this Latest) \<and>
     (\<forall>n \<in> \<Union> (idents ` set (typeRefs ext (repr latest))). \<not> resolves ext n \<longrightarrow>
        (\<exists>m \<in> \<Union> (idents ` set (typeRefs ext (repr latest))). \<not> resolves ext m \<and>
           fst (getUniqTypes ext True this w) = Inl (UnresolvedType m)) \<and>
        (\<exists>ids. fst (getUniqTypes ext False this w) = Inr ids \<and> n \<in> set ids \<and>
           set ids = \<Union> (idents ` set (typeRefs ext (repr latest)))))"
proof -
  from asLatest_ok [OF assms, of ext w] obtain latest this' w' where
    a: "asLatest ext this w = Inr (latest, this', w')"
    and c: "cacheSound ext this \<longrightarrow> repr latest = expected ext this Latest"
    by auto
  have g: "getUniqTypes ext b this w = (util_getUniqTypes ext (repr latest) b, this', w')" for b
    by (simp add: getUniqTypes_def a)
  have "(\<exists>m \<in> \<Union> (idents ` set (typeRefs ext (repr latest))). \<not> resolves ext m \<and>
           fst (getUniqTypes ext True this w) = Inl (UnresolvedType m)) \<and>
        (\<exists>ids. fst (getUniqTypes ext False this w) = Inr ids \<and> n \<in> set ids \<and>
           set ids = \<Union> (idents ` set (typeRefs ext (repr latest))))"
    if n: "n \<in> \<Union> (idents ` set (typeRefs ext (repr latest)))" "\<not> resolves ext n" for n
  proof -
    from util_lenient [of ext "repr latest"] obtain ids where
      "util_getUniqTypes ext (repr latest) False = Inr ids"
      "set ids = \<Union> (idents ` set (typeRefs ext (repr latest)))" by blast
    with n(1) have "\<exists>ids. fst (getUniqTypes ext False this w) = Inr ids \<and> n \<in> set ids \<and>
        set ids = \<Union> (idents ` set (typeRefs ext (repr latest)))"
      by (simp add: g)
    with util_strict [OF n] show ?thesis
      by (simp add: g)
  qed
  with a g c show ?thesis by blast
qed

theorem getUniqTypes_unresolved_witness:
  "knownVersion 14 \<and> \<not> resolves demoExt ''Foo'' \<and>
   fst (getUniqTypes demoExt True (demoRecord 14) demoWorld) = Inl (UnresolvedType ''Foo'') \<and>
   fst (getUniqTypes demoExt False (demoRecord 14) demoWorld) = Inr [''Foo'', ''Vec'']"
proof -
  have h: "knownVersion (version (demoRecord 14))"
    by (simp add: knownVersion_def KNOWN_VERSIONS_def demoRecord_fields)
  from getUniqTypes_unresolved [OF h, of demoExt demoWorld] h show ?thesis
    by (simp add: demo_eval getUniqTypes_def util_getUniqTypes_def)
qed

section \<open>The frame\<close>




section \<open>The side effect of the derived views\<close>

text \<open>
  Claim C10 (side effect of the derived views). On a record in any state of its life,
  \<open>asCallsOnly\<close>, \<open>toJSON\<close> and \<open>getUniqTypes\<close> each leave the source record as \<open>asLatest\<close>
  does: the sentinel entry and an entry for every version above the intrinsic one are in
  the cache, the entries that were there are kept, and payload, version and magic number
  are unchanged.
\<close>

theorem views_fill_cache:
  assumes "knownVersion (index md)"
    and "run ext cs (construct magic md, w0) = (this, w)"
  shows "\<exists>latest this' w'. asLatest ext this w = Inr (latest, this', w') \<and>
     (\<exists>new w''. asCallsOnly ext this w = Inr (new, this', w'')) \<and>
     (\<exists>j. toJSON ext this w = Inr (j, this', w')) \<and>
     (\<forall>throwError. \<exists>r. getUniqTypes ext throwError this w = (r, this', w')) \<and>
     converted this' Latest = Some latest \<and>
     (\<forall>m. index md < m \<and> m \<le> LATEST_VERSION \<longrightarrow> converted this' (Ver m) \<noteq> None) \<and>
     (\<forall>key x. converted this key = Some x \<longrightarrow> converted this' key = Some x) \<and>
     metadata this' = md \<and> version this' = index md \<and> magicNumber this' = magic"
proof -
  note r = reached [OF assms]
  have known: "knownVersion (version this)" using assms(1) r(3) by simp
  from asLatest_ok [OF known, of ext w] r(5) obtain latest this' w' where
    a: "asLatest ext this w = Inr (latest, this', w')"
    and e: "extends this w UNIV this' w'"
    and h: "converted this' Latest = Some latest"
    and c: "cacheSound ext this'"
    by auto
  from e r have f: "metadata this' = md" "magicNumber this' = magic" "version this' = index md"
    by (simp_all add: extends_def version_def)
  have "converted this' (Ver m) \<noteq> None" if "index md < m" "m \<le> LATEST_VERSION" for m
    using cache_complete [OF c, of m] h that f(3) by (simp add: latest_15)
  moreover from e have "\<forall>key x. converted this key = Some x \<longrightarrow> converted this' key = Some x"
    unfolding extends_def by blast
  ultimately show ?thesis
    using a h f
    by (simp add: asCallsOnly_def toJSON_def getUniqTypes_def createMetadataAll_def)
qed

theorem views_fill_cache_witness:
  "knownVersion 13 \<and> converted (demoRecord 13) = Map.empty \<and>
   dom (converted (fst (perform demoExt AsCallsOnly (demoRecord 13, demoWorld)))) =
     {Ver 14, Ver 15, Latest} \<and>
   dom (converted (fst (perform demoExt ToJSON (demoRecord 13, demoWorld)))) =
     {Ver 14, Ver 15, Latest} \<and>
   dom (converted (fst (perform demoExt (GetUniqTypes True) (demoRecord 13, demoWorld)))) =
     {Ver 14, Ver 15, Latest} \<and>
   (\<exists>latest this' w'. asLatest demoExt (demoRecord 13) demoWorld = Inr (latest, this', w') \<and>
      converted this' Latest = Some latest \<and> metadata this' = metadata (demoRecord 13))"
proof -
  let ?md = "\<lparr>index = 13, payload = \<lparr>ref = 0, repr = [13::nat]\<rparr>\<rparr>"
  have h1: "knownVersion (index ?md)"
    by (simp add: knownVersion_def KNOWN_VERSIONS_def)
  have h2: "run demoExt [] (construct 1635018093 ?md, demoWorld) = (demoRecord 13, demoWorld)"
    by (simp add: demoRecord_def)
  have d: "dom (converted (fst (perform demoExt AsCallsOnly (demoRecord 13, demoWorld)))) =
     {Ver 14, Ver 15, Latest}"
    "dom (converted (fst (perform demoExt ToJSON (demoRecord 13, demoWorld)))) =
     {Ver 14, Ver 15, Latest}"
    "dom (converted (fst (perform demoExt (GetUniqTypes True) (demoRecord 13, demoWorld)))) =
     {Ver 14, Ver 15, Latest}"
    by (auto simp: demo_eval asCallsOnly_def toJSON_def getUniqTypes_def createMetadataAll_def
        split: if_splits)
  from views_fill_cache [OF h1 h2] h1 d show ?thesis
    by (simp add: demoRecord_fields) blast
qed

end
